theory Spec2Isabelle
  imports Main "HOL-Library.Word"
begin

section \<open>JavaScript strings\<close>

text \<open>
  A JavaScript string is a sequence of 16-bit UTF-16 code units; \<open>length\<close> counts code
  units and a regular expression without the \<open>u\<close> flag matches code unit by code unit.
  ASCII literals of the source are written \<open>js ''...''\<close>.
\<close>

type_synonym code_unit = "16 word"
type_synonym jsstring = "code_unit list"

definition cu :: "char \<Rightarrow> code_unit" where
  "cu c = of_nat (of_char c)"

definition js :: "string \<Rightarrow> jsstring" where
  "js s = map cu s"

text \<open>\<open>if (v)\<close> on a string value: only the empty string is falsy.\<close>

definition truthy :: "jsstring \<Rightarrow> bool" where
  "truthy s = (s \<noteq> [])"

section \<open>Regular expressions\<close>

text \<open>
  The constructs that occur in the literal
  \<^verbatim>\<open>/^(https?:\/\/)?(www\.)?(youtube\.com|youtu\.?be)\/.+$/\<close>:
  the assertions \<^verbatim>\<open>^\<close> and \<^verbatim>\<open>$\<close>, literal characters (an escaped \<^verbatim>\<open>\/\<close> or
  \<^verbatim>\<open>\.\<close> is the literal character), the wildcard \<^verbatim>\<open>.\<close>, sequence, alternation
  \<^verbatim>\<open>|\<close>, the greedy quantifiers \<^verbatim>\<open>?\<close> and \<^verbatim>\<open>+\<close>, and groups.
\<close>

datatype regex =
    Assert_Start
  | Assert_End
  | Lit code_unit
  | Dot
  | Empty
  | Seq regex regex
  | Alt regex regex
  | Opt regex
  | Plus regex
  | Group regex

text \<open>
  Without the \<open>s\<close> flag the wildcard matches every code unit except the four line
  terminators LF, CR, U+2028 and U+2029.
\<close>

definition is_line_terminator :: "code_unit \<Rightarrow> bool" where
  "is_line_terminator c = (c = 0x000A \<or> c = 0x000D \<or> c = 0x2028 \<or> c = 0x2029)"

text \<open>
  A match state is the index reached in the input together with the input that is left.
  \<open>rmatch r st\<close> lists, in the order a backtracking matcher tries them, the states in
  which a match of \<open>r\<close> that starts in \<open>st\<close> can end. Without the \<open>m\<close> flag \<^verbatim>\<open>^\<close>
  holds at index 0 only and \<^verbatim>\<open>$\<close> at the end of the input only. A further iteration
  of \<^verbatim>\<open>+\<close> is tried only after an iteration that consumed input.
\<close>

type_synonym mstate = "nat \<times> jsstring"

fun rmatch :: "regex \<Rightarrow> mstate \<Rightarrow> mstate list" where
  "rmatch Assert_Start st = (if fst st = 0 then [st] else [])"
| "rmatch Assert_End st = (if snd st = [] then [st] else [])"
| "rmatch (Lit c) st =
     (case snd st of
        [] \<Rightarrow> []
      | x # xs \<Rightarrow> if x = c then [(Suc (fst st), xs)] else [])"
| "rmatch Dot st =
     (case snd st of
        [] \<Rightarrow> []
      | x # xs \<Rightarrow> if is_line_terminator x then [] else [(Suc (fst st), xs)])"
| "rmatch Empty st = [st]"
| "rmatch (Seq a b) st = concat (map (rmatch b) (rmatch a st))"
| "rmatch (Alt a b) st = rmatch a st @ rmatch b st"
| "rmatch (Opt a) st = rmatch a st @ [st]"
| "rmatch (Plus a) st =
     concat (map (\<lambda>st'. (if length (snd st') < length (snd st)
                          then rmatch (Plus a) st' else []) @ [st'])
                 (rmatch a st))"
| "rmatch (Group a) st = rmatch a st"

text \<open>
  \<open>RegExp.prototype.test\<close> for a pattern without the \<open>g\<close> and \<open>y\<close> flags: the match
  is tried at every start index from 0 up to the length of the input.
\<close>

fun test_from :: "regex \<Rightarrow> nat \<Rightarrow> jsstring \<Rightarrow> bool" where
  "test_from r i [] = (rmatch r (i, []) \<noteq> [])"
| "test_from r i (x # xs) = (rmatch r (i, x # xs) \<noteq> [] \<or> test_from r (Suc i) xs)"

definition regexp_test :: "regex \<Rightarrow> jsstring \<Rightarrow> bool" where
  "regexp_test r s = test_from r 0 s"

fun seqs :: "regex list \<Rightarrow> regex" where
  "seqs [] = Empty"
| "seqs [r] = r"
| "seqs (r # rs) = Seq r (seqs rs)"

definition str :: "string \<Rightarrow> regex" where
  "str s = seqs (map (\<lambda>c. Lit (cu c)) s)"

definition youtubePattern :: regex where
  "youtubePattern =
     seqs [Assert_Start,
           Opt (Group (seqs [str ''http'', Opt (Lit (cu CHR ''s'')), str '':'',
                             Lit (cu CHR ''/''), Lit (cu CHR ''/'')])),
           Opt (Group (seqs [str ''www'', Lit (cu CHR ''.'')])),
           Group (Alt (seqs [str ''youtube'', Lit (cu CHR ''.''), str ''com''])
                      (seqs [str ''youtu'', Opt (Lit (cu CHR ''.'')), str ''be''])),
           Lit (cu CHR ''/''),
           Plus Dot,
           Assert_End]"

section \<open>The page\<close>

text \<open>
  The part of the browser state the script reads and writes: the input elements by id
  with the listeners registered on them, the children of \<open>document.body\<close>
  (\<open>None\<close> while \<open>document.body\<close> is \<open>null\<close>), the nodes created so far, the
  pending timers and the clock in milliseconds. A DOM call that fails throws; a
  completion carries the state in which it ended either way.
\<close>

datatype error = TypeError | NotFoundError

datatype 'a completion = Normal 'a | Throw error 'a

fun outcome :: "'a completion \<Rightarrow> 'a" where
  "outcome (Normal x) = x"
| "outcome (Throw e x) = x"

record input_element =
  input_value :: jsstring
  borderColor :: jsstring

record css =
  css_position :: jsstring
  css_top :: jsstring
  css_right :: jsstring
  css_padding :: jsstring
  css_border_radius :: jsstring
  css_color :: jsstring
  css_z_index :: jsstring
  css_animation :: jsstring
  css_background :: jsstring

record node =
  tagName :: jsstring
  className :: jsstring
  textContent :: jsstring
  style :: css

text \<open>
  The two arrow functions handed to \<open>setTimeout\<close>, each closed over the node
  \<open>notification\<close>, and the two anonymous listener functions.
\<close>

datatype callback = Slide_Out nat | Remove_Node nat

datatype listener = Video_Url_Blur | Password_Input

record page =
  elements :: "jsstring \<rightharpoonup> input_element"
  listeners :: "(jsstring \<times> jsstring \<times> listener) list"
  body :: "nat list option"
  nodes :: "nat \<rightharpoonup> node"
  next_node :: nat
  timers :: "(nat \<times> callback) list"
  now :: nat
  uncaught :: "error list"

subsection \<open>DOM operations\<close>

definition empty_css :: css where
  "empty_css = \<lparr>css_position = [], css_top = [], css_right = [], css_padding = [],
     css_border_radius = [], css_color = [], css_z_index = [], css_animation = [],
     css_background = []\<rparr>"

definition createElement :: "jsstring \<Rightarrow> page \<Rightarrow> nat \<times> page" where
  "createElement tag pg =
     (next_node pg,
      pg\<lparr>nodes := (nodes pg)(next_node pg \<mapsto>
             \<lparr>tagName = tag, className = [], textContent = [], style = empty_css\<rparr>),
         next_node := Suc (next_node pg)\<rparr>)"

definition update_node :: "nat \<Rightarrow> (node \<Rightarrow> node) \<Rightarrow> page \<Rightarrow> page" where
  "update_node n f pg = pg\<lparr>nodes := (nodes pg)(n := map_option f (nodes pg n))\<rparr>"

text \<open>\<open>document.body.appendChild\<close>: a node that is a child already is moved to the end.\<close>

definition appendChild :: "nat \<Rightarrow> page \<Rightarrow> page completion" where
  "appendChild n pg =
     (case body pg of
        None \<Rightarrow> Throw TypeError pg
      | Some kids \<Rightarrow> Normal (pg\<lparr>body := Some (removeAll n kids @ [n])\<rparr>))"

text \<open>\<open>document.body.removeChild\<close> throws when the node is not a child of the body.\<close>

definition removeChild :: "nat \<Rightarrow> page \<Rightarrow> page completion" where
  "removeChild n pg =
     (case body pg of
        None \<Rightarrow> Throw TypeError pg
      | Some kids \<Rightarrow>
          if n \<in> set kids then Normal (pg\<lparr>body := Some (removeAll n kids)\<rparr>)
          else Throw NotFoundError pg)"

definition setTimeout :: "callback \<Rightarrow> nat \<Rightarrow> page \<Rightarrow> page" where
  "setTimeout cb delay pg = pg\<lparr>timers := timers pg @ [(now pg + delay, cb)]\<rparr>"

definition getElementById :: "jsstring \<Rightarrow> page \<Rightarrow> jsstring option" where
  "getElementById i pg = (case elements pg i of None \<Rightarrow> None | Some e \<Rightarrow> Some i)"

text \<open>A method call on \<open>null\<close> throws a TypeError.\<close>

definition addEventListener ::
  "jsstring option \<Rightarrow> jsstring \<Rightarrow> listener \<Rightarrow> page \<Rightarrow> page completion" where
  "addEventListener target ev l pg =
     (case target of
        None \<Rightarrow> Throw TypeError pg
      | Some el \<Rightarrow> Normal (pg\<lparr>listeners := listeners pg @ [(el, ev, l)]\<rparr>))"

section \<open>The notifier\<close>

text \<open>The inline style that the assignment to \<open>style.cssText\<close> declares.\<close>

definition notification_css :: css where
  "notification_css = \<lparr>css_position = js ''fixed'', css_top = js ''20px'',
     css_right = js ''20px'', css_padding = js ''1rem 1.5rem'',
     css_border_radius = js ''5px'', css_color = js ''white'', css_z_index = js ''1000'',
     css_animation = js ''slideIn 0.3s ease'', css_background = []\<rparr>"

definition showNotification :: "jsstring \<Rightarrow> jsstring option \<Rightarrow> page \<Rightarrow> page completion" where
  "showNotification message type_arg pg =
     (let type = (case type_arg of None \<Rightarrow> js ''info'' | Some t \<Rightarrow> t);
          (notification, pg1) = createElement (js ''div'') pg;
          pg2 = update_node notification (\<lambda>n. n\<lparr>className := js ''notification '' @ type\<rparr>) pg1;
          pg3 = update_node notification (\<lambda>n. n\<lparr>textContent := message\<rparr>) pg2;
          pg4 = update_node notification (\<lambda>n. n\<lparr>style := notification_css\<rparr>) pg3;
          pg5 = update_node notification
                  (\<lambda>n. n\<lparr>style := (style n)\<lparr>css_background :=
                     (if type = js ''success'' then js ''#27ae60''
                      else if type = js ''error'' then js ''#e74c3c''
                      else js ''#3498db'')\<rparr>\<rparr>) pg4
      in case appendChild notification pg5 of
           Throw e pg6 \<Rightarrow> Throw e pg6
         | Normal pg6 \<Rightarrow> Normal (setTimeout (Slide_Out notification) 3000 pg6))"

text \<open>What the two timer callbacks do when they run.\<close>

fun run_callback :: "callback \<Rightarrow> page \<Rightarrow> page completion" where
  "run_callback (Slide_Out notification) pg =
     Normal (setTimeout (Remove_Node notification) 300
       (update_node notification
          (\<lambda>n. n\<lparr>style := (style n)\<lparr>css_animation := js ''slideOut 0.3s ease''\<rparr>\<rparr>) pg))"
| "run_callback (Remove_Node notification) pg = removeChild notification pg"

section \<open>The form field validators\<close>

text \<open>
  The message of the URL rule, \<open>U+041F U+043E U+0436 ...\<close>, as UTF-16 code units
  (54 of them; the characters 42 to 48 spell \<open>YouTube\<close>).
\<close>

definition invalid_url_message :: jsstring where
  "invalid_url_message =
     [0x041F, 0x043E, 0x0436, 0x0430, 0x043B, 0x0443, 0x0439, 0x0441, 0x0442, 0x0430,
      0x002C, 0x0020, 0x0432, 0x0432, 0x0435, 0x0434, 0x0438, 0x0442, 0x0435, 0x0020,
      0x043A, 0x043E, 0x0440, 0x0440, 0x0435, 0x043A, 0x0442, 0x043D, 0x0443, 0x044E,
      0x0020, 0x0441, 0x0441, 0x044B, 0x043B, 0x043A, 0x0443, 0x0020, 0x043D, 0x0430,
      0x0020, 0x0059, 0x006F, 0x0075, 0x0054, 0x0075, 0x0062, 0x0065, 0x0020, 0x0432,
      0x0438, 0x0434, 0x0435, 0x043E]"

text \<open>
  The listeners run with \<open>this\<close> bound to the input element; they return the element
  as they leave it together with the page.
\<close>

definition video_url_blur ::
  "input_element \<Rightarrow> page \<Rightarrow> (input_element \<times> page) completion" where
  "video_url_blur this pg =
     (if truthy (input_value this) \<and> \<not> regexp_test youtubePattern (input_value this)
      then (let this1 = this\<lparr>borderColor := js ''#e74c3c''\<rparr> in
            case showNotification invalid_url_message (Some (js ''error'')) pg of
              Throw e pg1 \<Rightarrow> Throw e (this1, pg1)
            | Normal pg1 \<Rightarrow> Normal (this1, pg1))
      else Normal (this\<lparr>borderColor := js ''#27ae60''\<rparr>, pg))"

definition password_input ::
  "input_element \<Rightarrow> page \<Rightarrow> (input_element \<times> page) completion" where
  "password_input this pg =
     (let strength = length (input_value this) in
      if strength < 6 then Normal (this\<lparr>borderColor := js ''#e74c3c''\<rparr>, pg)
      else if strength < 10 then Normal (this\<lparr>borderColor := js ''#f39c12''\<rparr>, pg)
      else Normal (this\<lparr>borderColor := js ''#27ae60''\<rparr>, pg))"

text \<open>The listener of \<open>DOMContentLoaded\<close>.\<close>

definition on_DOMContentLoaded :: "page \<Rightarrow> page completion" where
  "on_DOMContentLoaded pg =
     (let videoUrlInput = getElementById (js ''video_url'') pg in
      case (if videoUrlInput \<noteq> None
            then addEventListener videoUrlInput (js ''blur'') Video_Url_Blur pg
            else Normal pg) of
        Throw e pg1 \<Rightarrow> Throw e pg1
      | Normal pg1 \<Rightarrow>
          (let passwordInput = getElementById (js ''password'') pg1 in
           if passwordInput \<noteq> None
           then addEventListener passwordInput (js ''input'') Password_Input pg1
           else Normal pg1))"

section \<open>Timers and events\<close>

text \<open>
  The event loop under a virtual clock: a pending timer runs when the clock reaches its
  due time, the earlier one first and, among timers due at the same time, the one set
  first. An exception that leaves a callback or a listener is reported and the loop goes
  on. \<open>advance_to t\<close> runs every timer due up to \<open>t\<close>, those set on the way as well,
  and leaves the clock at \<open>t\<close>.
\<close>

fun earliest :: "(nat \<times> callback) list \<Rightarrow> (nat \<times> callback) option" where
  "earliest [] = None"
| "earliest (x # xs) =
     (case earliest xs of
        None \<Rightarrow> Some x
      | Some y \<Rightarrow> if fst x \<le> fst y then Some x else Some y)"

definition next_due :: "nat \<Rightarrow> page \<Rightarrow> (nat \<times> callback) option" where
  "next_due t pg = earliest (filter (\<lambda>x. fst x \<le> t) (timers pg))"

definition report :: "page completion \<Rightarrow> page" where
  "report c = (case c of Normal pg \<Rightarrow> pg | Throw e pg \<Rightarrow> pg\<lparr>uncaught := uncaught pg @ [e]\<rparr>)"

definition fire :: "nat \<times> callback \<Rightarrow> page \<Rightarrow> page" where
  "fire x pg =
     report (run_callback (snd x)
       (pg\<lparr>timers := remove1 x (timers pg), now := max (now pg) (fst x)\<rparr>))"

fun weight :: "callback \<Rightarrow> nat" where
  "weight (Slide_Out n) = 2"
| "weight (Remove_Node n) = 1"

definition pending_work :: "page \<Rightarrow> nat" where
  "pending_work pg = sum_list (map (\<lambda>x. weight (snd x)) (timers pg))"

function advance_to :: "nat \<Rightarrow> page \<Rightarrow> page" where
  "advance_to t pg =
     (case next_due t pg of
        None \<Rightarrow> pg\<lparr>now := max (now pg) t\<rparr>
      | Some x \<Rightarrow> advance_to t (fire x pg))"
  by pat_completeness auto
termination
proof (relation "measure (\<lambda>(t, pg). pending_work pg)")
  show "wf (measure (\<lambda>(t, pg). pending_work pg))"
    by simp
next
  fix t :: nat and pg :: page and x :: "nat \<times> callback"
  assume due: "next_due t pg = Some x"
  have mem: "y \<in> set ts" if "earliest ts = Some y" for y and ts :: "(nat \<times> callback) list"
    using that by (induction ts arbitrary: y) (auto split: option.splits if_splits)
  have "x \<in> set (filter (\<lambda>x. fst x \<le> t) (timers pg))"
    using due mem unfolding next_due_def by blast
  then have x: "x \<in> set (timers pg)"
    by simp
  have less: "sum_list (map (\<lambda>x. weight (snd x)) (remove1 y ts)) + weight (snd y) =
      sum_list (map (\<lambda>x. weight (snd x)) ts)"
    if "y \<in> set ts" for y and ts :: "(nat \<times> callback) list"
    using that by (induction ts) auto
  have "pending_work (fire x pg) < pending_work pg"
  proof (cases "snd x")
    case (Slide_Out n)
    with less [OF x] show ?thesis
      by (simp add: fire_def report_def pending_work_def setTimeout_def update_node_def)
  next
    case (Remove_Node n)
    with less [OF x] show ?thesis
      by (simp add: fire_def report_def pending_work_def removeChild_def
          split: option.splits)
  qed
  then show "((t, fire x pg), (t, pg)) \<in> measure (\<lambda>(t, pg). pending_work pg)"
    by simp
qed

text \<open>
  What can happen on the page: a DOM event of some type on the element with some id,
  whose field holds the given value at that moment; a call of the global
  \<open>showNotification\<close> by any script of the page; time passing.
\<close>

datatype page_event =
    Dom_Event jsstring jsstring jsstring
  | Call_showNotification jsstring "jsstring option"
  | Elapse nat

fun handler :: "listener \<Rightarrow> input_element \<Rightarrow> page \<Rightarrow> (input_element \<times> page) completion" where
  "handler Video_Url_Blur = video_url_blur"
| "handler Password_Input = password_input"

definition store_element :: "jsstring \<Rightarrow> input_element \<times> page \<Rightarrow> page" where
  "store_element target r = (snd r)\<lparr>elements := (elements (snd r))(target \<mapsto> fst r)\<rparr>"

definition run_listener :: "listener \<Rightarrow> jsstring \<Rightarrow> page \<Rightarrow> page" where
  "run_listener l target pg =
     (case elements pg target of
        None \<Rightarrow> pg
      | Some this \<Rightarrow>
          (case handler l this pg of
             Normal r \<Rightarrow> store_element target r
           | Throw e r \<Rightarrow> (store_element target r)\<lparr>uncaught := uncaught (snd r) @ [e]\<rparr>))"

fun dispatch :: "(jsstring \<times> jsstring \<times> listener) list \<Rightarrow> jsstring \<Rightarrow> jsstring \<Rightarrow> page \<Rightarrow> page" where
  "dispatch [] target ev pg = pg"
| "dispatch ((el, ty, l) # ls) target ev pg =
     dispatch ls target ev (if el = target \<and> ty = ev then run_listener l target pg else pg)"

definition set_value :: "jsstring \<Rightarrow> jsstring \<Rightarrow> page \<Rightarrow> page" where
  "set_value target v pg =
     pg\<lparr>elements := (elements pg)(target := map_option (\<lambda>e. e\<lparr>input_value := v\<rparr>)
                                              (elements pg target))\<rparr>"

fun step :: "page_event \<Rightarrow> page \<Rightarrow> page" where
  "step (Dom_Event target ev v) pg =
     (let pg1 = set_value target v pg in dispatch (listeners pg1) target ev pg1)"
| "step (Call_showNotification message type_arg) pg = report (showNotification message type_arg pg)"
| "step (Elapse ms) pg = advance_to (now pg + ms) pg"

fun run :: "page_event list \<Rightarrow> page \<Rightarrow> page" where
  "run [] pg = pg"
| "run (e # es) pg = run es (step e pg)"

text \<open>
  Node identities are handed out in order: in a page that came about by the operations
  above, every child of the body and every node a pending timer refers to has been
  created already.
\<close>

definition children :: "page \<Rightarrow> nat list" where
  "children pg = (case body pg of None \<Rightarrow> [] | Some kids \<Rightarrow> kids)"

fun callback_node :: "callback \<Rightarrow> nat" where
  "callback_node (Slide_Out n) = n"
| "callback_node (Remove_Node n) = n"

definition well_formed :: "page \<Rightarrow> bool" where
  "well_formed pg =
     (list_all (\<lambda>k. k < next_node pg) (children pg) \<and>
      list_all (\<lambda>x. callback_node (snd x) < next_node pg) (timers pg))"

definition body_available :: "page \<Rightarrow> bool" where
  "body_available pg = (body pg \<noteq> None)"

text \<open>A page after parsing, before any script has run, with the two fields or without.\<close>

definition blank_field :: input_element where
  "blank_field = \<lparr>input_value = [], borderColor = []\<rparr>"

definition initial_page :: "(jsstring \<rightharpoonup> input_element) \<Rightarrow> page" where
  "initial_page els = \<lparr>elements = els, listeners = [], body = Some [], nodes = Map.empty,
     next_node = 0, timers = [], now = 0, uncaught = []\<rparr>"

section \<open>Notions used to state the properties\<close>

text \<open>
  The pieces the pattern is built from: the optional scheme, the optional \<open>www.\<close>
  and the three spellings of the host that the alternative
  \<^verbatim>\<open>(youtube\.com|youtu\.?be)\<close> admits.
\<close>

definition schemes :: "jsstring list" where
  "schemes = [[], js ''http://'', js ''https://'']"

definition www_prefixes :: "jsstring list" where
  "www_prefixes = [[], js ''www.'']"

definition hosts :: "jsstring list" where
  "hosts = [js ''youtube.com'', js ''youtu.be'', js ''youtube'']"

definition no_line_terminator :: "jsstring \<Rightarrow> bool" where
  "no_line_terminator s = list_all (\<lambda>c. \<not> is_line_terminator c) s"

text \<open>The nodes that are children of the body in \<open>pg'\<close> and were not in \<open>pg\<close>.\<close>

definition added_nodes :: "page \<Rightarrow> page \<Rightarrow> node list" where
  "added_nodes pg pg' =
     List.map_filter (nodes pg') (filter (\<lambda>n. n \<notin> set (children pg)) (children pg'))"

definition animation_of :: "nat \<Rightarrow> page \<Rightarrow> jsstring option" where
  "animation_of n pg = map_option (\<lambda>nd. css_animation (style nd)) (nodes pg n)"

definition timers_of :: "nat \<Rightarrow> page \<Rightarrow> (nat \<times> callback) list" where
  "timers_of n pg = filter (\<lambda>x. callback_node (snd x) = n) (timers pg)"

text \<open>
  The life of the notification node \<open>n\<close> created at time \<open>t0\<close>: shown with its
  slide-in animation and one timer pending for \<open>t0 + 3000\<close>; then sliding out with one
  timer pending for \<open>t0 + 3300\<close>; then removed with no timer left. \<open>in_flight\<close> is the
  same while the event loop is running timers on its way to time \<open>t\<close>.
\<close>

definition lifecycle :: "nat \<Rightarrow> nat \<Rightarrow> page \<Rightarrow> bool" where
  "lifecycle n t0 pg =
     (n < next_node pg \<and> t0 \<le> now pg \<and>
      (n \<in> set (children pg) \<and> now pg < t0 + 3000 \<and>
         timers_of n pg = [(t0 + 3000, Slide_Out n)] \<and>
         animation_of n pg = Some (js ''slideIn 0.3s ease'')
       \<or> n \<in> set (children pg) \<and> t0 + 3000 \<le> now pg \<and> now pg < t0 + 3300 \<and>
         timers_of n pg = [(t0 + 3300, Remove_Node n)] \<and>
         animation_of n pg = Some (js ''slideOut 0.3s ease'')
       \<or> n \<notin> set (children pg) \<and> t0 + 3300 \<le> now pg \<and> timers_of n pg = []))"

definition in_flight :: "nat \<Rightarrow> nat \<Rightarrow> nat \<Rightarrow> page \<Rightarrow> bool" where
  "in_flight t n t0 pg =
     (n < next_node pg \<and> t0 \<le> now pg \<and> now pg \<le> t \<and>
      (n \<in> set (children pg) \<and> now pg \<le> t0 + 3000 \<and>
         timers_of n pg = [(t0 + 3000, Slide_Out n)] \<and>
         animation_of n pg = Some (js ''slideIn 0.3s ease'')
       \<or> n \<in> set (children pg) \<and> t0 + 3000 \<le> now pg \<and> now pg \<le> t0 + 3300 \<and>
         timers_of n pg = [(t0 + 3300, Remove_Node n)] \<and>
         animation_of n pg = Some (js ''slideOut 0.3s ease'')
       \<or> n \<notin> set (children pg) \<and> t0 + 3300 \<le> now pg \<and> timers_of n pg = []))"

text \<open>
  The argument \<open>type\<close> after its default, the background chosen for it, and the node
  \<open>showNotification\<close> has built when it reaches \<open>appendChild\<close>.
\<close>

definition background_for :: "jsstring \<Rightarrow> jsstring" where
  "background_for type =
     (if type = js ''success'' then js ''#27ae60''
      else if type = js ''error'' then js ''#e74c3c''
      else js ''#3498db'')"

definition notification_node :: "jsstring \<Rightarrow> jsstring \<Rightarrow> node" where
  "notification_node message type =
     \<lparr>tagName = js ''div'', className = js ''notification '' @ type, textContent = message,
      style = notification_css\<lparr>css_background := background_for type\<rparr>\<rparr>"

definition type_of_arg :: "jsstring option \<Rightarrow> jsstring" where
  "type_of_arg type_arg = (case type_arg of None \<Rightarrow> js ''info'' | Some t \<Rightarrow> t)"

section \<open>Strings and the pattern\<close>

lemma cu_eq_iff [simp]: "cu a = cu b \<longleftrightarrow> a = b"
proof -
  have "take_bit 16 (of_char c :: nat) = of_char c" for c
    by (rule take_bit_nat_eq_self) (rule less_trans [OF nat_of_char_less_256], simp)
  then show ?thesis
    by (simp add: cu_def word_of_nat_eq_iff)
qed

lemma js_eq_iff [simp]: "js a = js b \<longleftrightarrow> a = b"
  unfolding js_def by (rule inj_map_eq_map) (simp add: inj_on_def)

lemma js_Nil [simp]: "js [] = []"
  by (simp add: js_def)

lemma js_Cons [simp]: "js (c # cs) = cu c # js cs"
  by (simp add: js_def)

lemma length_js [simp]: "length (js s) = length s"
  by (simp add: js_def)

lemma line_terminator_cu: "is_line_terminator (cu c) \<longleftrightarrow> c = CHR 0x0A \<or> c = CHR 0x0D"
proof -
  have a: "cu CHR 0x0A = 0x000A" "cu CHR 0x0D = 0x000D"
    by (simp_all add: cu_def)
  have "(of_char c :: nat) mod 65536 = of_char c"
    by (rule mod_less) (rule less_trans [OF nat_of_char_less_256], simp)
  then have "unat (cu c) < 256"
    by (simp add: cu_def unat_of_nat)
  then have "cu c \<noteq> 0x2028" "cu c \<noteq> 0x2029"
    by auto
  then show ?thesis
    unfolding is_line_terminator_def a [symmetric] by simp
qed

lemma line_terminator_LS [simp]: "is_line_terminator 0x2028"
  by (simp add: is_line_terminator_def)

declare rmatch.simps(9) [simp del]

lemma rmatch_Plus_Dot_Nil [simp]: "rmatch (Plus Dot) (i, []) = []"
  by (simp add: rmatch.simps(9))

lemma rmatch_Plus_Dot_Cons [simp]:
  "rmatch (Plus Dot) (i, x # xs) =
     (if is_line_terminator x then [] else rmatch (Plus Dot) (Suc i, xs) @ [(Suc i, xs)])"
  by (simp add: rmatch.simps(9))

lemma concat_singletons: "concat (map (\<lambda>x. [x]) xs) = xs"
  by (induction xs) simp_all

lemma rmatch_Empty_fun: "rmatch Empty = (\<lambda>st. [st])"
  by (rule ext) simp

lemma rmatch_seqs_Cons:
  "rmatch (seqs (r # rs)) st = concat (map (rmatch (seqs rs)) (rmatch r st))"
  by (cases rs) (simp_all add: rmatch_Empty_fun concat_singletons)

lemma in_seqs_Cons:
  "st'' \<in> set (rmatch (seqs (r # rs)) st) \<longleftrightarrow>
     (\<exists>st'. st' \<in> set (rmatch r st) \<and> st'' \<in> set (rmatch (seqs rs) st'))"
  by (auto simp: rmatch_seqs_Cons)

lemma in_Alt: "st' \<in> set (rmatch (Alt a b) st) \<longleftrightarrow>
    st' \<in> set (rmatch a st) \<or> st' \<in> set (rmatch b st)"
  by simp

lemma in_Opt: "st' \<in> set (rmatch (Opt a) st) \<longleftrightarrow> st' \<in> set (rmatch a st) \<or> st' = st"
  by auto

lemma in_Group: "st' \<in> set (rmatch (Group a) st) \<longleftrightarrow> st' \<in> set (rmatch a st)"
  by simp

lemma in_Lit: "st' \<in> set (rmatch (Lit c) st) \<longleftrightarrow>
    snd st = c # snd st' \<and> fst st' = Suc (fst st)"
  by (cases st'; cases st) (auto split: list.splits)

lemma in_Assert_Start: "st' \<in> set (rmatch Assert_Start st) \<longleftrightarrow> fst st = 0 \<and> st' = st"
  by auto

lemma in_Assert_End: "st' \<in> set (rmatch Assert_End st) \<longleftrightarrow> snd st = [] \<and> st' = st"
  by auto

lemma in_str: "st' \<in> set (rmatch (str w) st) \<longleftrightarrow>
    snd st = js w @ snd st' \<and> fst st' = fst st + length w"
proof (induction w arbitrary: st)
  case Nil
  show ?case by (cases st; cases st') (auto simp: str_def)
next
  case (Cons c cs)
  have "st' \<in> set (rmatch (str (c # cs)) st) \<longleftrightarrow>
     (\<exists>st1. st1 \<in> set (rmatch (Lit (cu c)) st) \<and> st' \<in> set (rmatch (str cs) st1))"
    by (auto simp: str_def rmatch_seqs_Cons)
  also have "\<dots> \<longleftrightarrow> (\<exists>st1. snd st = cu c # snd st1 \<and> fst st1 = Suc (fst st) \<and>
      snd st1 = js cs @ snd st' \<and> fst st' = fst st1 + length cs)"
    by (simp only: in_Lit Cons.IH conj_assoc)
  also have "\<dots> \<longleftrightarrow> snd st = js (c # cs) @ snd st' \<and> fst st' = fst st + length (c # cs)"
    by auto
  finally show ?case .
qed

text \<open>
  The greedy \<^verbatim>\<open>.+\<close> can stop after any non-empty run of code units none of which
  is a line terminator.
\<close>

lemma in_Plus_Dot: "st' \<in> set (rmatch (Plus Dot) st) \<longleftrightarrow>
    (\<exists>u. u \<noteq> [] \<and> no_line_terminator u \<and> snd st = u @ snd st' \<and>
         fst st' = fst st + length u)"
proof (induction "snd st" arbitrary: st)
  case Nil
  then have "st = (fst st, [])" by (metis prod.collapse)
  then have "rmatch (Plus Dot) st = []" by (metis rmatch_Plus_Dot_Nil)
  with Nil show ?case by auto
next
  case (Cons x xs)
  then have st: "st = (fst st, x # xs)" by (metis prod.collapse)
  have IH: "st' \<in> set (rmatch (Plus Dot) (Suc (fst st), xs)) \<longleftrightarrow>
    (\<exists>u. u \<noteq> [] \<and> no_line_terminator u \<and> xs = u @ snd st' \<and>
         fst st' = Suc (fst st) + length u)"
    using Cons.hyps(1) [of "(Suc (fst st), xs)"] by simp
  have "st' \<in> set (rmatch (Plus Dot) st) \<longleftrightarrow>
     \<not> is_line_terminator x \<and>
       (st' \<in> set (rmatch (Plus Dot) (Suc (fst st), xs)) \<or> st' = (Suc (fst st), xs))"
    by (subst st) auto
  also have "\<dots> \<longleftrightarrow> (\<exists>u. u \<noteq> [] \<and> no_line_terminator u \<and> x # xs = u @ snd st' \<and>
         fst st' = fst st + length u)" (is "?L \<longleftrightarrow> ?R")
  proof
    assume ?L
    then have x: "\<not> is_line_terminator x" by simp
    from \<open>?L\<close> consider "st' \<in> set (rmatch (Plus Dot) (Suc (fst st), xs))"
      | "st' = (Suc (fst st), xs)"
      by blast
    then show ?R
    proof cases
      case 1
      then obtain u where "u \<noteq> []" "no_line_terminator u" "xs = u @ snd st'"
        "fst st' = Suc (fst st) + length u" using IH by blast
      with x show ?thesis
        by (intro exI [of _ "x # u"]) (simp add: no_line_terminator_def)
    next
      case 2
      with x show ?thesis
        by (intro exI [of _ "[x]"]) (simp add: no_line_terminator_def)
    qed
  next
    assume ?R
    then obtain u where u: "u \<noteq> []" "no_line_terminator u" "x # xs = u @ snd st'"
        "fst st' = fst st + length u" by blast
    then obtain v where v: "u = x # v" by (cases u) auto
    with u have x: "\<not> is_line_terminator x" and nv: "no_line_terminator v"
      and xs: "xs = v @ snd st'" and f: "fst st' = Suc (fst st) + length v"
      by (simp_all add: no_line_terminator_def)
    show ?L
    proof (cases v)
      case Nil
      with xs f have "st' = (Suc (fst st), xs)" by (cases st') simp
      with x show ?thesis by simp
    next
      case (Cons a b)
      with nv xs f have "st' \<in> set (rmatch (Plus Dot) (Suc (fst st), xs))"
        using IH by blast
      with x show ?thesis by simp
    qed
  qed
  finally show ?case using Cons.hyps(2) by simp
qed

lemmas in_rmatch =
  in_seqs_Cons in_Alt in_Opt in_Group in_Lit in_Assert_Start in_Assert_End in_str in_Plus_Dot

lemma match_imp_shape:
  assumes "st' \<in> set (rmatch youtubePattern (i, s))"
  shows "i = 0 \<and> (\<exists>p\<in>set schemes. \<exists>w\<in>set www_prefixes. \<exists>h\<in>set hosts. \<exists>rest.
         rest \<noteq> [] \<and> no_line_terminator rest \<and> s = p @ w @ h @ js ''/'' @ rest)"
  using assms unfolding youtubePattern_def schemes_def www_prefixes_def hosts_def
  apply (simp only: in_rmatch seqs.simps(2))
  apply simp
  apply (elim conjE exE disjE; clarsimp)
  done

lemma Plus_Dot_to_end:
  "(\<exists>x\<in>set (rmatch (Plus Dot) (i, s)). snd x = []) \<longleftrightarrow> s \<noteq> [] \<and> no_line_terminator s"
  (is "?L \<longleftrightarrow> ?R")
proof
  assume ?L
  then obtain x where "x \<in> set (rmatch (Plus Dot) (i, s))" "snd x = []" by blast
  then show ?R unfolding in_Plus_Dot by auto
next
  assume ?R
  then have "(i + length s, []) \<in> set (rmatch (Plus Dot) (i, s))"
    unfolding in_Plus_Dot by simp
  then show ?L by (intro bexI [of _ "(i + length s, [])"]) simp_all
qed

lemma shape_imp_match:
  assumes "p \<in> set schemes" "w \<in> set www_prefixes" "h \<in> set hosts"
    and "rest \<noteq> []" "no_line_terminator rest"
  shows "set (rmatch youtubePattern (0, p @ w @ h @ js ''/'' @ rest)) \<noteq> {}"
proof -
  have tail: "set (rmatch (Plus Dot) (k, rest)) \<inter> {x. snd x = []} \<noteq> {}" for k
    using assms(4,5) Plus_Dot_to_end [of k rest] by blast
  have p: "p = [] \<or> p = js ''http://'' \<or> p = js ''https://''"
    using assms(1) by (simp add: schemes_def)
  have w: "w = [] \<or> w = js ''www.''"
    using assms(2) by (simp add: www_prefixes_def)
  have h: "h = js ''youtube.com'' \<or> h = js ''youtu.be'' \<or> h = js ''youtube''"
    using assms(3) by (simp add: hosts_def)
  from p w h show ?thesis
    unfolding youtubePattern_def
    apply (elim disjE)
    apply (simp_all add: str_def tail del: rmatch_Plus_Dot_Cons)
    done
qed

lemma test_from_later: "test_from youtubePattern (Suc i) s = False"
proof (induction s arbitrary: i)
  case Nil
  show ?case
    using match_imp_shape [of _ "Suc i" "[]"] by (cases "rmatch youtubePattern (Suc i, [])") auto
next
  case (Cons x xs)
  have "rmatch youtubePattern (Suc i, x # xs) = []"
    using match_imp_shape [of _ "Suc i" "x # xs"]
    by (cases "rmatch youtubePattern (Suc i, x # xs)") auto
  with Cons show ?case by simp
qed

lemma regexp_test_youtube: "regexp_test youtubePattern s \<longleftrightarrow> rmatch youtubePattern (0, s) \<noteq> []"
  unfolding regexp_test_def by (cases s) (simp_all add: test_from_later)

text \<open>
  What the pattern accepts: an optional scheme, an optional \<open>www.\<close>, one of the three
  hosts, a slash and a non-empty rest without line terminators.
\<close>

lemma regexp_test_youtube_iff:
  "regexp_test youtubePattern s \<longleftrightarrow>
     (\<exists>p\<in>set schemes. \<exists>w\<in>set www_prefixes. \<exists>h\<in>set hosts. \<exists>rest.
         rest \<noteq> [] \<and> no_line_terminator rest \<and> s = p @ w @ h @ js ''/'' @ rest)"
  (is "?L \<longleftrightarrow> ?R")
proof
  assume ?L
  then obtain st' where "st' \<in> set (rmatch youtubePattern (0, s))"
    unfolding regexp_test_youtube by (cases "rmatch youtubePattern (0, s)") auto
  then show ?R
    using match_imp_shape by blast
next
  assume ?R
  then have "set (rmatch youtubePattern (0, s)) \<noteq> {}"
    using shape_imp_match by blast
  then show ?L
    unfolding regexp_test_youtube by auto
qed

section \<open>The notifier and the listeners\<close>

lemma showNotification_eq:
  "showNotification message type_arg pg =
     (let n = next_node pg;
          pg5 = pg\<lparr>nodes := (nodes pg)(n \<mapsto> notification_node message (type_of_arg type_arg)),
                   next_node := Suc n\<rparr>
      in case body pg of
           None \<Rightarrow> Throw TypeError pg5
         | Some kids \<Rightarrow> Normal (pg5\<lparr>body := Some (removeAll n kids @ [n]),
                                     timers := timers pg @ [(now pg + 3000, Slide_Out n)]\<rparr>))"
  by (simp add: showNotification_def createElement_def update_node_def appendChild_def
      setTimeout_def notification_node_def background_for_def type_of_arg_def Let_def
      split: option.splits)

lemma well_formed_fresh:
  assumes "well_formed pg"
  shows "next_node pg \<notin> set (children pg)"
    and "timers_of (next_node pg) pg = []"
  using assms by (auto simp: well_formed_def list_all_iff timers_of_def filter_empty_conv)

lemma added_nodes_showNotification:
  assumes "well_formed pg" "body_available pg"
  shows "added_nodes pg (outcome (showNotification message type_arg pg)) =
     [notification_node message (type_of_arg type_arg)]"
proof -
  from assms(2) obtain kids where kids: "body pg = Some kids"
    by (auto simp: body_available_def)
  with well_formed_fresh(1) [OF assms(1)] have n: "next_node pg \<notin> set kids"
    by (simp add: children_def)
  then have "filter (\<lambda>n. n \<notin> set kids) kids = []"
    by (simp add: filter_empty_conv)
  with n kids show ?thesis
    by (simp add: showNotification_eq added_nodes_def children_def Let_def
        List.map_filter_simps)
qed

lemmas eval_test = regexp_test_def youtubePattern_def str_def line_terminator_cu

lemma showNotification_Normal:
  assumes "body_available pg"
  shows "showNotification message type_arg pg = Normal (outcome (showNotification message type_arg pg))"
  using assms by (auto simp: showNotification_eq body_available_def Let_def)

lemma video_url_blur_eq:
  assumes "body_available pg"
  shows "video_url_blur this pg =
     (if input_value this = [] \<or> regexp_test youtubePattern (input_value this)
      then Normal (this\<lparr>borderColor := js ''#27ae60''\<rparr>, pg)
      else Normal (this\<lparr>borderColor := js ''#e74c3c''\<rparr>,
                   outcome (showNotification invalid_url_message (Some (js ''error'')) pg)))"
  using showNotification_Normal [OF assms, of invalid_url_message "Some (js ''error'')"]
  by (auto simp: video_url_blur_def truthy_def Let_def split: completion.splits)

lemma video_url_blur_colour:
  "borderColor (fst (outcome (video_url_blur this pg))) =
     (if input_value this = [] \<or> regexp_test youtubePattern (input_value this)
      then js ''#27ae60'' else js ''#e74c3c'')"
  by (auto simp: video_url_blur_def truthy_def Let_def split: completion.splits)

lemma initial_page_ok [simp]: "well_formed (initial_page els)" "body_available (initial_page els)"
  by (simp_all add: well_formed_def body_available_def initial_page_def children_def)

lemma ftp_rejected: "\<not> regexp_test youtubePattern (js ''ftp://example.com'')"
  by (simp add: eval_test)


lemma video_url_blur_accepts:
  assumes "input_value this = [] \<or> regexp_test youtubePattern (input_value this)"
  shows "video_url_blur this pg = Normal (this\<lparr>borderColor := js ''#27ae60''\<rparr>, pg)"
  using assms by (auto simp: video_url_blur_def truthy_def)

lemma video_url_blur_rejects:
  assumes "well_formed pg" "body_available pg"
    and "input_value this \<noteq> []" "\<not> regexp_test youtubePattern (input_value this)"
  shows "\<exists>pg'. video_url_blur this pg = Normal (this\<lparr>borderColor := js ''#e74c3c''\<rparr>, pg') \<and>
           added_nodes pg pg' = [notification_node invalid_url_message (js ''error'')]"
  using assms(3,4) added_nodes_showNotification [OF assms(1,2), of invalid_url_message "Some (js ''error'')"]
  by (simp add: video_url_blur_eq [OF assms(2)] type_of_arg_def)

lemma youtu_be_accepted: "regexp_test youtubePattern (js ''https://youtu.be/abc123'')"
  by (simp add: eval_test)


section \<open>The URL rule\<close>

text \<open>
  C1: on a page whose body exists, the blur listener leaves the field with the border
  colour \<open>#27ae60\<close> exactly when the value is empty or matches the pattern, and then
  the page is as before; otherwise it leaves the border colour \<open>#e74c3c\<close> and the body
  has gained exactly one node, of class \<open>notification error\<close>, with the red background
  and the fixed message.
\<close>

theorem video_url_blur_valid_iff:
  assumes "well_formed pg" "body_available pg"
  shows "(borderColor (fst (outcome (video_url_blur this pg))) = js ''#27ae60'') =
           (input_value this = [] \<or> regexp_test youtubePattern (input_value this)) \<and>
         (if input_value this = [] \<or> regexp_test youtubePattern (input_value this)
          then video_url_blur this pg = Normal (this\<lparr>borderColor := js ''#27ae60''\<rparr>, pg)
          else (\<exists>pg' nd. video_url_blur this pg = Normal (this\<lparr>borderColor := js ''#e74c3c''\<rparr>, pg') \<and>
                  added_nodes pg pg' = [nd] \<and>
                  className nd = js ''notification error'' \<and>
                  css_background (style nd) = js ''#e74c3c'' \<and>
                  textContent nd = invalid_url_message))"
proof -
  have "(borderColor (fst (outcome (video_url_blur this pg))) = js ''#27ae60'') =
           (input_value this = [] \<or> regexp_test youtubePattern (input_value this))"
    by (simp add: video_url_blur_colour)
  moreover have "video_url_blur this pg = Normal (this\<lparr>borderColor := js ''#27ae60''\<rparr>, pg)"
    if "input_value this = [] \<or> regexp_test youtubePattern (input_value this)"
    using that by (simp add: video_url_blur_eq [OF assms(2)])
  moreover have "\<exists>pg' nd. video_url_blur this pg = Normal (this\<lparr>borderColor := js ''#e74c3c''\<rparr>, pg') \<and>
                  added_nodes pg pg' = [nd] \<and>
                  className nd = js ''notification error'' \<and>
                  css_background (style nd) = js ''#e74c3c'' \<and>
                  textContent nd = invalid_url_message"
    if "\<not> (input_value this = [] \<or> regexp_test youtubePattern (input_value this))"
    using that added_nodes_showNotification [OF assms, of invalid_url_message "Some (js ''error'')"]
    by (simp add: video_url_blur_eq [OF assms(2)] notification_node_def background_for_def type_of_arg_def)
  ultimately show ?thesis by simp
qed

theorem video_url_blur_valid_iff_witness:
  "well_formed (initial_page Map.empty) \<and> body_available (initial_page Map.empty) \<and>
   (\<exists>pg' nd. video_url_blur (blank_field\<lparr>input_value := js ''ftp://example.com''\<rparr>) (initial_page Map.empty) =
        Normal (blank_field\<lparr>input_value := js ''ftp://example.com'', borderColor := js ''#e74c3c''\<rparr>, pg') \<and>
      added_nodes (initial_page Map.empty) pg' = [nd] \<and>
      className nd = js ''notification error'' \<and>
      css_background (style nd) = js ''#e74c3c'' \<and>
      textContent nd = invalid_url_message)"
  using video_url_blur_valid_iff [of "initial_page Map.empty" "blank_field\<lparr>input_value := js ''ftp://example.com''\<rparr>"]
    ftp_rejected
  by simp

section \<open>The password rule\<close>

text \<open>
  C2: the input listener sets the border colour to \<open>#e74c3c\<close> exactly when the value
  has fewer than 6 code units, to \<open>#f39c12\<close> exactly when it has 6 to 9, and to
  \<open>#27ae60\<close> exactly when it has 10 or more; the colour is a function of the length
  alone, and the page is returned as it was, so no notification is shown.
\<close>

theorem password_input_colour:
  "(\<exists>this'. password_input this pg = Normal (this', pg) \<and>
      input_value this' = input_value this \<and>
      (borderColor this' = js ''#e74c3c'') = (length (input_value this) < 6) \<and>
      (borderColor this' = js ''#f39c12'') =
         (6 \<le> length (input_value this) \<and> length (input_value this) < 10) \<and>
      (borderColor this' = js ''#27ae60'') = (10 \<le> length (input_value this))) \<and>
   (\<exists>f. \<forall>this pg. borderColor (fst (outcome (password_input this pg))) =
            f (length (input_value this)))"
proof (intro conjI)
  show "\<exists>f. \<forall>this pg. borderColor (fst (outcome (password_input this pg))) =
            f (length (input_value this))"
    by (intro exI [of _ "\<lambda>k. if k < 6 then js ''#e74c3c''
          else if k < 10 then js ''#f39c12'' else js ''#27ae60''"])
       (simp add: password_input_def Let_def)
  show "\<exists>this'. password_input this pg = Normal (this', pg) \<and>
      input_value this' = input_value this \<and>
      (borderColor this' = js ''#e74c3c'') = (length (input_value this) < 6) \<and>
      (borderColor this' = js ''#f39c12'') =
         (6 \<le> length (input_value this) \<and> length (input_value this) < 10) \<and>
      (borderColor this' = js ''#27ae60'') = (10 \<le> length (input_value this))"
    by (simp add: password_input_def Let_def)
qed

section \<open>The background of a notification\<close>

text \<open>
  C4: the node that \<open>showNotification\<close> creates has the background \<open>#27ae60\<close> for
  the type \<open>success\<close>, \<open>#e74c3c\<close> for \<open>error\<close> and \<open>#3498db\<close> for every other
  type; a call without the type argument is a call with \<open>info\<close>.
\<close>

theorem showNotification_background:
  "(\<exists>nd. nodes (outcome (showNotification message (Some type) pg)) (next_node pg) = Some nd \<and>
      css_background (style nd) =
        (if type = js ''success'' then js ''#27ae60''
         else if type = js ''error'' then js ''#e74c3c''
         else js ''#3498db'') \<and>
      className nd = js ''notification '' @ type \<and>
      textContent nd = message) \<and>
   showNotification message None pg = showNotification message (Some (js ''info'')) pg \<and>
   children (outcome (showNotification message (Some type) pg)) =
     (case body pg of None \<Rightarrow> [] | Some kids \<Rightarrow> removeAll (next_node pg) kids @ [next_node pg])"
  by (simp add: showNotification_eq Let_def notification_node_def background_for_def
      type_of_arg_def children_def split: option.splits)

section \<open>Registration at load time\<close>

text \<open>
  C8: the listener of \<open>DOMContentLoaded\<close> never throws; it registers the blur listener
  exactly when an element with id \<open>video_url\<close> exists and the input listener exactly
  when an element with id \<open>password\<close> exists, each independently of the other.
\<close>

theorem on_DOMContentLoaded_registers:
  "on_DOMContentLoaded pg =
     Normal (pg\<lparr>listeners := listeners pg @
        (if elements pg (js ''video_url'') = None then []
         else [(js ''video_url'', js ''blur'', Video_Url_Blur)]) @
        (if elements pg (js ''password'') = None then []
         else [(js ''password'', js ''input'', Password_Input)])\<rparr>)"
  by (auto simp: on_DOMContentLoaded_def getElementById_def addEventListener_def Let_def
      split: option.splits)

section \<open>A concrete scenario\<close>

text \<open>
  C7: on a page whose body exists, the value \<open>https://youtu.be/abc123\<close> leaves the
  green border and the page as it was; the value \<open>ftp://example.com\<close> leaves the red
  border and exactly one new node, of class \<open>notification error\<close>, whose text is the
  Russian message of the source, code unit by code unit; the empty value leaves the green
  border and the page as it was.
\<close>

theorem concrete_scenario:
  assumes "well_formed pg" "body_available pg"
  shows "video_url_blur (this\<lparr>input_value := js ''https://youtu.be/abc123''\<rparr>) pg =
           Normal (this\<lparr>input_value := js ''https://youtu.be/abc123'',
                        borderColor := js ''#27ae60''\<rparr>, pg) \<and>
         (\<exists>pg' nd. video_url_blur (this\<lparr>input_value := js ''ftp://example.com''\<rparr>) pg =
              Normal (this\<lparr>input_value := js ''ftp://example.com'',
                           borderColor := js ''#e74c3c''\<rparr>, pg') \<and>
            added_nodes pg pg' = [nd] \<and>
            className nd = js ''notification error'' \<and>
            css_background (style nd) = js ''#e74c3c'' \<and>
            textContent nd =
              [0x041F, 0x043E, 0x0436, 0x0430, 0x043B, 0x0443, 0x0439, 0x0441, 0x0442, 0x0430,
               0x002C, 0x0020, 0x0432, 0x0432, 0x0435, 0x0434, 0x0438, 0x0442, 0x0435, 0x0020,
               0x043A, 0x043E, 0x0440, 0x0440, 0x0435, 0x043A, 0x0442, 0x043D, 0x0443, 0x044E,
               0x0020, 0x0441, 0x0441, 0x044B, 0x043B, 0x043A, 0x0443, 0x0020, 0x043D, 0x0430,
               0x0020, 0x0059, 0x006F, 0x0075, 0x0054, 0x0075, 0x0062, 0x0065, 0x0020, 0x0432,
               0x0438, 0x0434, 0x0435, 0x043E]) \<and>
         video_url_blur (this\<lparr>input_value := []\<rparr>) pg =
           Normal (this\<lparr>input_value := [], borderColor := js ''#27ae60''\<rparr>, pg)"
proof (intro conjI)
  show "video_url_blur (this\<lparr>input_value := js ''https://youtu.be/abc123''\<rparr>) pg =
           Normal (this\<lparr>input_value := js ''https://youtu.be/abc123'',
                        borderColor := js ''#27ae60''\<rparr>, pg)"
    using youtu_be_accepted
    by (subst video_url_blur_accepts) simp_all
  show "video_url_blur (this\<lparr>input_value := []\<rparr>) pg =
           Normal (this\<lparr>input_value := [], borderColor := js ''#27ae60''\<rparr>, pg)"
    by (subst video_url_blur_accepts) simp_all
  have "\<exists>pg'. video_url_blur (this\<lparr>input_value := js ''ftp://example.com''\<rparr>) pg =
       Normal (this\<lparr>input_value := js ''ftp://example.com'', borderColor := js ''#e74c3c''\<rparr>, pg') \<and>
       added_nodes pg pg' = [notification_node invalid_url_message (js ''error'')]"
    using video_url_blur_rejects [OF assms, of "this\<lparr>input_value := js ''ftp://example.com''\<rparr>"]
      ftp_rejected
    by simp
  then obtain pg' where pg': "video_url_blur (this\<lparr>input_value := js ''ftp://example.com''\<rparr>) pg =
       Normal (this\<lparr>input_value := js ''ftp://example.com'', borderColor := js ''#e74c3c''\<rparr>, pg')"
       "added_nodes pg pg' = [notification_node invalid_url_message (js ''error'')]"
    by blast
  show "\<exists>pg' nd. video_url_blur (this\<lparr>input_value := js ''ftp://example.com''\<rparr>) pg =
              Normal (this\<lparr>input_value := js ''ftp://example.com'',
                           borderColor := js ''#e74c3c''\<rparr>, pg') \<and>
            added_nodes pg pg' = [nd] \<and>
            className nd = js ''notification error'' \<and>
            css_background (style nd) = js ''#e74c3c'' \<and>
            textContent nd =
              [0x041F, 0x043E, 0x0436, 0x0430, 0x043B, 0x0443, 0x0439, 0x0441, 0x0442, 0x0430,
               0x002C, 0x0020, 0x0432, 0x0432, 0x0435, 0x0434, 0x0438, 0x0442, 0x0435, 0x0020,
               0x043A, 0x043E, 0x0440, 0x0440, 0x0435, 0x043A, 0x0442, 0x043D, 0x0443, 0x044E,
               0x0020, 0x0441, 0x0441, 0x044B, 0x043B, 0x043A, 0x0443, 0x0020, 0x043D, 0x0430,
               0x0020, 0x0059, 0x006F, 0x0075, 0x0054, 0x0075, 0x0062, 0x0065, 0x0020, 0x0432,
               0x0438, 0x0434, 0x0435, 0x043E]"
    using pg'
    by (intro exI [of _ pg'] exI [of _ "notification_node invalid_url_message (js ''error'')"])
       (simp add: notification_node_def background_for_def invalid_url_message_def)
qed

theorem concrete_scenario_witness:
  "well_formed (initial_page Map.empty) \<and> body_available (initial_page Map.empty) \<and>
   video_url_blur (blank_field\<lparr>input_value := js ''https://youtu.be/abc123''\<rparr>)
       (initial_page Map.empty) =
     Normal (blank_field\<lparr>input_value := js ''https://youtu.be/abc123'',
                  borderColor := js ''#27ae60''\<rparr>, initial_page Map.empty) \<and>
   (\<exists>pg' nd. video_url_blur (blank_field\<lparr>input_value := js ''ftp://example.com''\<rparr>)
        (initial_page Map.empty) =
        Normal (blank_field\<lparr>input_value := js ''ftp://example.com'',
                     borderColor := js ''#e74c3c''\<rparr>, pg') \<and>
      added_nodes (initial_page Map.empty) pg' = [nd] \<and>
      className nd = js ''notification error'' \<and>
      css_background (style nd) = js ''#e74c3c'' \<and>
      textContent nd = invalid_url_message) \<and>
   video_url_blur (blank_field\<lparr>input_value := []\<rparr>) (initial_page Map.empty) =
     Normal (blank_field\<lparr>input_value := [], borderColor := js ''#27ae60''\<rparr>,
             initial_page Map.empty)"
  using concrete_scenario [of "initial_page Map.empty" blank_field]
  by (simp add: invalid_url_message_def)

section \<open>What the pattern accepts\<close>

text \<open>
  C3: the dot before \<open>be\<close> in the pattern is escaped, so it stands for the dot itself
  and not for any character: \<open>https://youtuXbe/v\<close> does not match and the field is
  marked invalid.
\<close>

theorem youtuXbe_rejected:
  "\<not> regexp_test youtubePattern (js ''https://youtuXbe/v'') \<and>
   borderColor (fst (outcome (video_url_blur
     (blank_field\<lparr>input_value := js ''https://youtuXbe/v''\<rparr>) (initial_page Map.empty)))) =
     js ''#e74c3c''"
  by (simp add: video_url_blur_colour) (simp add: eval_test)

text \<open>
  C3, as the code has it: \<open>https://youtu\<close>, one code unit and \<open>be/v\<close> match the
  pattern exactly when that code unit is the dot, and the listener colours the border
  green then and red otherwise.
\<close>

theorem youtu_be_dot_only:
  "regexp_test youtubePattern (js ''https://youtu'' @ [x] @ js ''be/v'') = (x = cu CHR ''.'') \<and>
   borderColor (fst (outcome (video_url_blur
     (this\<lparr>input_value := js ''https://youtu'' @ [x] @ js ''be/v''\<rparr>) pg))) =
     (if x = cu CHR ''.'' then js ''#27ae60'' else js ''#e74c3c'')"
proof -
  have "regexp_test youtubePattern (js ''https://youtu'' @ [x] @ js ''be/v'') = (x = cu CHR ''.'')"
    by (auto simp: eval_test)
  then show ?thesis
    by (simp add: video_url_blur_colour)
qed

text \<open>
  C9: a value that is a scheme or none, \<open>www.\<close> or not, one of the three hosts and
  then just a slash does not match, and the listener colours the border red.
\<close>

theorem slash_only_rejected:
  assumes "p \<in> set schemes" "w \<in> set www_prefixes" "h \<in> set hosts"
  shows "\<not> regexp_test youtubePattern (p @ w @ h @ js ''/'') \<and>
         borderColor (fst (outcome (video_url_blur
           (this\<lparr>input_value := p @ w @ h @ js ''/''\<rparr>) pg))) = js ''#e74c3c''"
proof -
  have p: "p = [] \<or> p = js ''http://'' \<or> p = js ''https://''"
    using assms(1) by (simp add: schemes_def)
  have w: "w = [] \<or> w = js ''www.''"
    using assms(2) by (simp add: www_prefixes_def)
  have h: "h = js ''youtube.com'' \<or> h = js ''youtu.be'' \<or> h = js ''youtube''"
    using assms(3) by (simp add: hosts_def)
  have "\<not> regexp_test youtubePattern (p @ w @ h @ js ''/'')"
    using p w h by (elim disjE) (simp_all add: eval_test)
  moreover have "p @ w @ h @ js ''/'' \<noteq> []"
    by simp
  ultimately show ?thesis
    by (simp add: video_url_blur_colour)
qed

theorem slash_only_rejected_witness:
  "js ''https://'' \<in> set schemes \<and> [] \<in> set www_prefixes \<and> js ''youtube.com'' \<in> set hosts \<and>
   \<not> regexp_test youtubePattern (js ''https://youtube.com/'') \<and>
   borderColor (fst (outcome (video_url_blur
     (blank_field\<lparr>input_value := js ''https://youtube.com/''\<rparr>) (initial_page Map.empty)))) =
     js ''#e74c3c''"
  using slash_only_rejected [of "js ''https://''" "[]" "js ''youtube.com''" blank_field "initial_page Map.empty"]
  by (simp add: schemes_def www_prefixes_def hosts_def)

text \<open>
  C10: the wildcard does not match a line terminator, so \<open>youtube/\<close> followed by the
  single code unit U+2028 does not match: the border turns red and a notification is shown.
\<close>

theorem bare_youtube_line_separator_rejected:
  "\<not> regexp_test youtubePattern (js ''youtube/'' @ [0x2028]) \<and>
   borderColor (fst (outcome (video_url_blur
     (blank_field\<lparr>input_value := js ''youtube/'' @ [0x2028]\<rparr>) (initial_page Map.empty)))) =
     js ''#e74c3c'' \<and>
   length (added_nodes (initial_page Map.empty) (snd (outcome (video_url_blur
     (blank_field\<lparr>input_value := js ''youtube/'' @ [0x2028]\<rparr>) (initial_page Map.empty))))) = 1"
proof -
  have no: "\<not> regexp_test youtubePattern (js ''youtube/'' @ [0x2028])"
    by (simp add: eval_test)
  have "\<exists>pg'. video_url_blur (blank_field\<lparr>input_value := js ''youtube/'' @ [0x2028]\<rparr>)
      (initial_page Map.empty) =
       Normal (blank_field\<lparr>input_value := js ''youtube/'' @ [0x2028], borderColor := js ''#e74c3c''\<rparr>, pg') \<and>
       added_nodes (initial_page Map.empty) pg' = [notification_node invalid_url_message (js ''error'')]"
    using video_url_blur_rejects [of "initial_page Map.empty"
        "blank_field\<lparr>input_value := js ''youtube/'' @ [0x2028]\<rparr>"] no
    by simp
  with no show ?thesis
    by auto
qed

text \<open>
  C10, as the code has it: a scheme or none, \<open>www.\<close> or not, then \<open>youtube/\<close> and
  at least one code unit, none of them a line terminator, matches; the listener colours
  the border green and leaves the page as it was.
\<close>

theorem bare_youtube_accepted:
  assumes "p \<in> set schemes" "w \<in> set www_prefixes"
    and "rest \<noteq> []" "no_line_terminator rest"
  shows "regexp_test youtubePattern (p @ w @ js ''youtube/'' @ rest) \<and>
         video_url_blur (this\<lparr>input_value := p @ w @ js ''youtube/'' @ rest\<rparr>) pg =
           Normal (this\<lparr>input_value := p @ w @ js ''youtube/'' @ rest,
                        borderColor := js ''#27ae60''\<rparr>, pg)"
proof -
  have "js ''youtube'' \<in> set hosts"
    by (simp add: hosts_def)
  then have "\<exists>p'\<in>set schemes. \<exists>w'\<in>set www_prefixes. \<exists>h\<in>set hosts. \<exists>rest'.
      rest' \<noteq> [] \<and> no_line_terminator rest' \<and>
      p @ w @ js ''youtube/'' @ rest = p' @ w' @ h @ js ''/'' @ rest'"
    using assms by (intro bexI [of _ p] bexI [of _ w] bexI [of _ "js ''youtube''"] exI [of _ rest]) simp_all
  then have t: "regexp_test youtubePattern (p @ w @ js ''youtube/'' @ rest)"
    by (simp only: regexp_test_youtube_iff)
  then show ?thesis
    by (simp add: video_url_blur_accepts)
qed

theorem bare_youtube_accepted_witness:
  "[] \<in> set schemes \<and> [] \<in> set www_prefixes \<and> js ''x'' \<noteq> [] \<and> no_line_terminator (js ''x'') \<and>
   regexp_test youtubePattern (js ''youtube/x'') \<and>
   video_url_blur (blank_field\<lparr>input_value := js ''youtube/x''\<rparr>) (initial_page Map.empty) =
     Normal (blank_field\<lparr>input_value := js ''youtube/x'', borderColor := js ''#27ae60''\<rparr>,
             initial_page Map.empty)"
  using bare_youtube_accepted [of "[]" "[]" "js ''x''" blank_field "initial_page Map.empty"]
  by (simp add: schemes_def www_prefixes_def no_line_terminator_def line_terminator_cu)

section \<open>The event loop\<close>

declare advance_to.simps [simp del]

lemma earliest_None: "earliest ts = None \<longleftrightarrow> ts = []"
  by (cases ts) (auto split: option.splits)

lemma earliest_mem: "earliest ts = Some x \<Longrightarrow> x \<in> set ts"
  by (induction ts arbitrary: x) (auto split: option.splits if_splits)

lemma earliest_least: "earliest ts = Some x \<Longrightarrow> y \<in> set ts \<Longrightarrow> fst x \<le> fst y"
proof (induction ts arbitrary: x)
  case Nil
  then show ?case by simp
next
  case (Cons z zs)
  show ?case
  proof (cases "earliest zs")
    case None
    then have "zs = []" by (simp add: earliest_None)
    with Cons.prems show ?thesis by simp
  next
    case (Some u)
    from Cons.IH [OF Some] have u: "y \<in> set zs \<Longrightarrow> fst u \<le> fst y" .
    from Cons.prems Some u show ?thesis
      by (auto split: if_splits)
  qed
qed

lemma next_due_Some:
  assumes "next_due t pg = Some x"
  shows "x \<in> set (timers pg)" and "fst x \<le> t"
    and "\<And>y. y \<in> set (timers pg) \<Longrightarrow> fst y \<le> t \<Longrightarrow> fst x \<le> fst y"
proof -
  from earliest_mem [OF assms [unfolded next_due_def]]
  show "x \<in> set (timers pg)" and "fst x \<le> t" by simp_all
  show "fst x \<le> fst y" if "y \<in> set (timers pg)" "fst y \<le> t" for y
    using earliest_least [OF assms [unfolded next_due_def], of y] that by simp
qed

lemma next_due_None:
  assumes "next_due t pg = None" "y \<in> set (timers pg)"
  shows "t < fst y"
  using assms by (auto simp: next_due_def earliest_None filter_empty_conv)

lemma fire_Slide_Out:
  shows "children (fire (d, Slide_Out m) pg) = children pg"
    and "next_node (fire (d, Slide_Out m) pg) = next_node pg"
    and "now (fire (d, Slide_Out m) pg) = max (now pg) d"
    and "timers (fire (d, Slide_Out m) pg) =
           remove1 (d, Slide_Out m) (timers pg) @ [(max (now pg) d + 300, Remove_Node m)]"
    and "nodes (fire (d, Slide_Out m) pg) =
           (nodes pg)(m := map_option
              (\<lambda>n. n\<lparr>style := (style n)\<lparr>css_animation := js ''slideOut 0.3s ease''\<rparr>\<rparr>)
              (nodes pg m))"
    and "body (fire (d, Slide_Out m) pg) = body pg"
  by (simp_all add: fire_def report_def setTimeout_def update_node_def children_def)

lemma fire_Remove_Node:
  shows "children (fire (d, Remove_Node m) pg) = removeAll m (children pg)"
    and "next_node (fire (d, Remove_Node m) pg) = next_node pg"
    and "now (fire (d, Remove_Node m) pg) = max (now pg) d"
    and "timers (fire (d, Remove_Node m) pg) = remove1 (d, Remove_Node m) (timers pg)"
    and "nodes (fire (d, Remove_Node m) pg) = nodes pg"
    and "body_available (fire (d, Remove_Node m) pg) = body_available pg"
  by (auto simp: fire_def report_def removeChild_def children_def body_available_def
      split: option.splits)

lemma timers_of_remove1_other:
  assumes "callback_node (snd x) \<noteq> n"
  shows "filter (\<lambda>y. callback_node (snd y) = n) (remove1 x ts) =
         filter (\<lambda>y. callback_node (snd y) = n) ts"
  using assms by (induction ts) auto

lemma in_timers_of: "x \<in> set (timers_of n pg) \<longleftrightarrow> x \<in> set (timers pg) \<and> callback_node (snd x) = n"
  by (auto simp: timers_of_def)

lemma in_flight_fire:
  assumes inv: "in_flight t n t0 pg" and due: "next_due t pg = Some x"
  shows "in_flight t n t0 (fire x pg)"
proof -
  note d = next_due_Some [OF due]
  obtain dx cb where x: "x = (dx, cb)" by (cases x)
  show ?thesis
  proof (cases "callback_node cb = n")
    case False
    have tm: "timers_of n (fire x pg) = timers_of n pg"
      using False unfolding x
      by (cases cb)
        (simp_all add: timers_of_def fire_Slide_Out fire_Remove_Node timers_of_remove1_other)
    have an: "animation_of n (fire x pg) = animation_of n pg"
      using False unfolding x
      by (cases cb) (simp_all add: animation_of_def fire_Slide_Out fire_Remove_Node)
    have ch: "n \<in> set (children (fire x pg)) \<longleftrightarrow> n \<in> set (children pg)"
      using False unfolding x
      by (cases cb) (auto simp: fire_Slide_Out fire_Remove_Node)
    have nn: "next_node (fire x pg) = next_node pg"
      unfolding x by (cases cb) (simp_all add: fire_Slide_Out fire_Remove_Node)
    have nw: "now (fire x pg) = max (now pg) dx"
      unfolding x by (cases cb) (simp_all add: fire_Slide_Out fire_Remove_Node)
    have b1: "dx \<le> t0 + 3000" if "timers_of n pg = [(t0 + 3000, Slide_Out n)]"
    proof (cases "t0 + 3000 \<le> t")
      case True
      have "(t0 + 3000, Slide_Out n) \<in> set (timers pg)"
        using that in_timers_of [of "(t0 + 3000, Slide_Out n)" n pg] by simp
      from d(3) [OF this] True show ?thesis by (simp add: x)
    next
      case False
      with d(2) show ?thesis by (simp add: x)
    qed
    have b2: "dx \<le> t0 + 3300" if "timers_of n pg = [(t0 + 3300, Remove_Node n)]"
    proof (cases "t0 + 3300 \<le> t")
      case True
      have "(t0 + 3300, Remove_Node n) \<in> set (timers pg)"
        using that in_timers_of [of "(t0 + 3300, Remove_Node n)" n pg] by simp
      from d(3) [OF this] True show ?thesis by (simp add: x)
    next
      case False
      with d(2) show ?thesis by (simp add: x)
    qed
    have dt: "dx \<le> t"
      using d(2) by (simp add: x)
    from inv b1 b2 dt show ?thesis
      unfolding in_flight_def tm an ch nn nw by auto
  next
    case True
    then have xin: "x \<in> set (timers_of n pg)"
      using d(1) by (simp add: in_timers_of x)
    from inv consider
      (shown) "n \<in> set (children pg)" "now pg \<le> t0 + 3000"
        "timers_of n pg = [(t0 + 3000, Slide_Out n)]"
        "animation_of n pg = Some (js ''slideIn 0.3s ease'')"
      | (leaving) "n \<in> set (children pg)" "t0 + 3000 \<le> now pg" "now pg \<le> t0 + 3300"
        "timers_of n pg = [(t0 + 3300, Remove_Node n)]"
      | (gone) "timers_of n pg = []"
      unfolding in_flight_def by blast
    then show ?thesis
    proof cases
      case shown
      with xin have x: "x = (t0 + 3000, Slide_Out n)" by simp
      have nw: "now (fire x pg) = t0 + 3000"
        using shown(2) unfolding x by (simp add: fire_Slide_Out)
      have "timers_of n (fire x pg) =
          remove1 (t0 + 3000, Slide_Out n) (timers_of n pg) @ [(t0 + 3300, Remove_Node n)]"
        using shown(2) unfolding x
        by (simp add: timers_of_def fire_Slide_Out filter_remove1 max_def)
      then have tm: "timers_of n (fire x pg) = [(t0 + 3300, Remove_Node n)]"
        using shown(3) by simp
      have an: "animation_of n (fire x pg) = Some (js ''slideOut 0.3s ease'')"
        using shown(4) unfolding x by (auto simp: animation_of_def fire_Slide_Out)
      have ch: "children (fire x pg) = children pg" and nn: "next_node (fire x pg) = next_node pg"
        unfolding x by (simp_all add: fire_Slide_Out)
      from inv shown(1) d(2) show ?thesis
        unfolding in_flight_def tm an nw ch nn by (simp add: x)
    next
      case leaving
      with xin have x: "x = (t0 + 3300, Remove_Node n)" by simp
      have "timers_of n (fire x pg) = remove1 (t0 + 3300, Remove_Node n) (timers_of n pg)"
        unfolding x by (simp add: timers_of_def fire_Remove_Node filter_remove1)
      then have tm: "timers_of n (fire x pg) = []"
        using leaving(4) by simp
      have nw: "now (fire x pg) = t0 + 3300"
        using leaving(3) unfolding x by (simp add: fire_Remove_Node)
      have ch: "children (fire x pg) = removeAll n (children pg)"
        and nn: "next_node (fire x pg) = next_node pg"
        unfolding x by (simp_all add: fire_Remove_Node)
      from inv d(2) show ?thesis
        unfolding in_flight_def tm nw ch nn by (simp add: x)
    next
      case gone
      with xin show ?thesis by simp
    qed
  qed
qed

lemma in_flight_done:
  assumes inv: "in_flight t n t0 pg" and due: "next_due t pg = None"
  shows "lifecycle n t0 (pg\<lparr>now := max (now pg) t\<rparr>)"
proof -
  have later: "t < fst y" if "y \<in> set (timers_of n pg)" for y
    using next_due_None [OF due, of y] that by (simp add: in_timers_of)
  have nw: "max (now pg) t = t"
    using inv by (simp add: in_flight_def)
  have same: "children (pg\<lparr>now := t\<rparr>) = children pg" "timers_of n (pg\<lparr>now := t\<rparr>) = timers_of n pg"
    "animation_of n (pg\<lparr>now := t\<rparr>) = animation_of n pg"
    by (simp_all add: children_def timers_of_def animation_of_def)
  have l1: "t < t0 + 3000" if "timers_of n pg = [(t0 + 3000, Slide_Out n)]"
    using later [of "(t0 + 3000, Slide_Out n)"] that by simp
  have l2: "t < t0 + 3300" if "timers_of n pg = [(t0 + 3300, Remove_Node n)]"
    using later [of "(t0 + 3300, Remove_Node n)"] that by simp
  from inv l1 l2 show ?thesis
    unfolding in_flight_def lifecycle_def nw same by auto
qed

lemma lifecycle_advance_to:
  assumes "in_flight t n t0 pg"
  shows "lifecycle n t0 (advance_to t pg)"
  using assms
proof (induction t pg rule: advance_to.induct)
  case (1 t pg)
  show ?case
  proof (cases "next_due t pg")
    case None
    with in_flight_done [OF "1.prems" None] show ?thesis
      by (simp add: advance_to.simps [of t pg])
  next
    case (Some x)
    from "1.IH" [OF Some in_flight_fire [OF "1.prems" Some]] Some show ?thesis
      by (simp add: advance_to.simps [of t pg])
  qed
qed

lemma lifecycle_in_flight:
  assumes "lifecycle n t0 pg" "now pg \<le> t"
  shows "in_flight t n t0 pg"
  using assms unfolding lifecycle_def in_flight_def by auto

lemma lifecycle_Elapse:
  assumes "lifecycle n t0 pg"
  shows "lifecycle n t0 (step (Elapse ms) pg)"
  using lifecycle_advance_to [OF lifecycle_in_flight [OF assms, of "now pg + ms"]] by simp

section \<open>The life of a notification under page events\<close>

lemma outcome_showNotification:
  shows "next_node (outcome (showNotification message type_arg pg)) = Suc (next_node pg)"
    and "now (outcome (showNotification message type_arg pg)) = now pg"
    and "children (outcome (showNotification message type_arg pg)) =
           (if body_available pg then removeAll (next_node pg) (children pg) @ [next_node pg]
            else [])"
    and "timers (outcome (showNotification message type_arg pg)) =
           (if body_available pg then timers pg @ [(now pg + 3000, Slide_Out (next_node pg))]
            else timers pg)"
    and "nodes (outcome (showNotification message type_arg pg)) =
           (nodes pg)(next_node pg \<mapsto> notification_node message (type_of_arg type_arg))"
    and "body_available (outcome (showNotification message type_arg pg)) = body_available pg"
  by (simp_all add: showNotification_eq Let_def children_def body_available_def
      split: option.splits)

lemma lifecycle_ignores [simp]:
  "lifecycle n t0 (pg\<lparr>uncaught := u\<rparr>) = lifecycle n t0 pg"
  "lifecycle n t0 (pg\<lparr>elements := els\<rparr>) = lifecycle n t0 pg"
  by (simp_all add: lifecycle_def children_def timers_of_def animation_of_def)

lemma lifecycle_report: "lifecycle n t0 (report c) = lifecycle n t0 (outcome c)"
  by (cases c) (simp_all add: report_def)

lemma lifecycle_showNotification:
  assumes "lifecycle n t0 pg"
  shows "lifecycle n t0 (outcome (showNotification message type_arg pg))"
proof -
  from assms have n: "n \<noteq> next_node pg" "n < Suc (next_node pg)"
    by (simp_all add: lifecycle_def)
  have gone: "body_available pg" if "n \<in> set (children pg)"
    using that by (cases "body pg") (simp_all add: children_def body_available_def)
  have ch: "n \<in> set (children (outcome (showNotification message type_arg pg))) \<longleftrightarrow>
      n \<in> set (children pg)"
    using n gone by (auto simp: outcome_showNotification)
  have tm: "timers_of n (outcome (showNotification message type_arg pg)) = timers_of n pg"
    using n by (simp add: timers_of_def outcome_showNotification)
  have an: "animation_of n (outcome (showNotification message type_arg pg)) = animation_of n pg"
    using n by (simp add: animation_of_def outcome_showNotification)
  from assms n(2) show ?thesis
    unfolding lifecycle_def ch tm an by (simp add: outcome_showNotification)
qed

lemma lifecycle_handler:
  assumes "lifecycle n t0 pg"
  shows "lifecycle n t0 (snd (outcome (handler l this pg)))"
proof (cases l)
  case Video_Url_Blur
  from lifecycle_showNotification [OF assms, of invalid_url_message "Some (js ''error'')"]
  have "lifecycle n t0 (snd (outcome (video_url_blur this pg)))"
    using assms
    by (cases "showNotification invalid_url_message (Some (js ''error'')) pg")
       (simp_all add: video_url_blur_def Let_def)
  with Video_Url_Blur show ?thesis by simp
next
  case Password_Input
  with assms show ?thesis
    by (simp add: password_input_def Let_def)
qed

lemma lifecycle_run_listener:
  assumes "lifecycle n t0 pg"
  shows "lifecycle n t0 (run_listener l target pg)"
proof (cases "elements pg target")
  case None
  with assms show ?thesis by (simp add: run_listener_def)
next
  case (Some this)
  from lifecycle_handler [OF assms, of l this] Some show ?thesis
    by (cases "handler l this pg") (simp_all add: run_listener_def store_element_def)
qed

lemma lifecycle_dispatch:
  assumes "lifecycle n t0 pg"
  shows "lifecycle n t0 (dispatch ls target ev pg)"
  using assms
  by (induction ls target ev pg rule: dispatch.induct) (simp_all add: lifecycle_run_listener)

lemma lifecycle_step:
  assumes "lifecycle n t0 pg"
  shows "lifecycle n t0 (step e pg)"
proof (cases e)
  case (Dom_Event target ev v)
  have "lifecycle n t0 (set_value target v pg)"
    using assms by (simp add: set_value_def)
  then show ?thesis
    unfolding Dom_Event by (simp add: Let_def lifecycle_dispatch)
next
  case (Call_showNotification message type_arg)
  with lifecycle_showNotification [OF assms] show ?thesis
    by (simp add: lifecycle_report)
next
  case (Elapse ms)
  with lifecycle_Elapse [OF assms] show ?thesis by simp
qed

lemma lifecycle_run:
  assumes "lifecycle n t0 pg"
  shows "lifecycle n t0 (run evs pg)"
  using assms by (induction evs arbitrary: pg) (simp_all add: lifecycle_step)

lemma lifecycle_begins:
  assumes "well_formed pg" "body_available pg"
  shows "lifecycle (next_node pg) (now pg) (outcome (showNotification message type_arg pg))"
proof -
  have "timers_of (next_node pg) (outcome (showNotification message type_arg pg)) =
      timers_of (next_node pg) pg @ [(now pg + 3000, Slide_Out (next_node pg))]"
    using assms(2) by (simp add: timers_of_def outcome_showNotification)
  then have tm: "timers_of (next_node pg) (outcome (showNotification message type_arg pg)) =
      [(now pg + 3000, Slide_Out (next_node pg))]"
    by (simp add: well_formed_fresh(2) [OF assms(1)])
  have an: "animation_of (next_node pg) (outcome (showNotification message type_arg pg)) =
      Some (js ''slideIn 0.3s ease'')"
    by (simp add: animation_of_def outcome_showNotification notification_node_def
        notification_css_def)
  show ?thesis
    unfolding lifecycle_def tm an using assms(2) by (simp add: outcome_showNotification)
qed

text \<open>The clock.\<close>

lemma now_fire: "now (fire x pg) = max (now pg) (fst x)"
  by (cases x; cases "snd x") (simp_all add: fire_Slide_Out fire_Remove_Node)

lemma now_advance_to: "now (advance_to t pg) = max (now pg) t"
proof (induction t pg rule: advance_to.induct)
  case (1 t pg)
  show ?case
  proof (cases "next_due t pg")
    case None
    then show ?thesis by (simp add: advance_to.simps [of t pg])
  next
    case (Some x)
    from "1.IH" [OF Some] next_due_Some(2) [OF Some] Some show ?thesis
      by (simp add: advance_to.simps [of t pg] now_fire)
  qed
qed

lemma now_Elapse: "now (step (Elapse ms) pg) = now pg + ms"
  by (simp add: now_advance_to)

lemma run_append: "run (es @ fs) pg = run fs (run es pg)"
  by (induction es arbitrary: pg) simp_all

lemma lifecycle_observed:
  assumes "lifecycle n t0 pg"
  shows "if now pg < t0 + 3000
         then n \<in> set (children pg) \<and> animation_of n pg = Some (js ''slideIn 0.3s ease'')
         else if now pg < t0 + 3300
         then n \<in> set (children pg) \<and> animation_of n pg = Some (js ''slideOut 0.3s ease'')
         else n \<notin> set (children pg)"
  using assms unfolding lifecycle_def by auto

section \<open>Well-formed pages\<close>

lemma well_formed_showNotification:
  assumes "well_formed pg"
  shows "well_formed (outcome (showNotification message type_arg pg))"
  using assms
  by (auto simp: well_formed_def outcome_showNotification list_all_iff)

lemma well_formed_ignores [simp]:
  "well_formed (pg\<lparr>uncaught := u\<rparr>) = well_formed pg"
  "well_formed (pg\<lparr>elements := els\<rparr>) = well_formed pg"
  "well_formed (pg\<lparr>now := t\<rparr>) = well_formed pg"
  "body_available (pg\<lparr>uncaught := u\<rparr>) = body_available pg"
  "body_available (pg\<lparr>elements := els\<rparr>) = body_available pg"
  "body_available (pg\<lparr>now := t\<rparr>) = body_available pg"
  by (simp_all add: well_formed_def children_def body_available_def)

lemma well_formed_fire:
  assumes "well_formed pg" "x \<in> set (timers pg)"
  shows "well_formed (fire x pg)"
proof -
  obtain d cb where x: "x = (d, cb)" by (cases x)
  from assms have "callback_node cb < next_node pg"
    by (auto simp: well_formed_def list_all_iff x)
  with assms(1) show ?thesis
    unfolding x
    by (cases cb)
       (auto simp: well_formed_def list_all_iff fire_Slide_Out fire_Remove_Node
         dest: notin_set_remove1)
qed

lemma body_available_fire: "body_available (fire x pg) = body_available pg"
  by (cases x; cases "snd x")
     (simp_all add: fire_Remove_Node, simp add: body_available_def fire_Slide_Out)

lemma ready_advance_to:
  assumes "well_formed pg"
  shows "well_formed (advance_to t pg) \<and>
         body_available (advance_to t pg) = body_available pg"
  using assms
proof (induction t pg rule: advance_to.induct)
  case (1 t pg)
  show ?case
  proof (cases "next_due t pg")
    case None
    with "1.prems" show ?thesis
      by (simp add: advance_to.simps [of t pg])
  next
    case (Some x)
    from "1.IH" [OF Some well_formed_fire [OF "1.prems" next_due_Some(1) [OF Some]]] Some
    show ?thesis
      by (simp add: advance_to.simps [of t pg] body_available_fire)
  qed
qed

lemma ready_report:
  "well_formed (report c) = well_formed (outcome c)"
  "body_available (report c) = body_available (outcome c)"
  by (cases c; simp add: report_def)+

lemma ready_handler:
  assumes "well_formed pg"
  shows "well_formed (snd (outcome (handler l this pg))) \<and>
         body_available (snd (outcome (handler l this pg))) = body_available pg"
proof (cases l)
  case Video_Url_Blur
  from well_formed_showNotification [OF assms, of invalid_url_message "Some (js ''error'')"]
    outcome_showNotification(6) [of invalid_url_message "Some (js ''error'')" pg]
  have "well_formed (snd (outcome (video_url_blur this pg))) \<and>
         body_available (snd (outcome (video_url_blur this pg))) = body_available pg"
    using assms
    by (cases "showNotification invalid_url_message (Some (js ''error'')) pg")
       (simp_all add: video_url_blur_def Let_def)
  with Video_Url_Blur show ?thesis by simp
next
  case Password_Input
  with assms show ?thesis
    by (simp add: password_input_def Let_def)
qed

lemma ready_run_listener:
  assumes "well_formed pg"
  shows "well_formed (run_listener l target pg) \<and>
         body_available (run_listener l target pg) = body_available pg"
proof (cases "elements pg target")
  case None
  with assms show ?thesis by (simp add: run_listener_def)
next
  case (Some this)
  from ready_handler [OF assms, of l this] Some show ?thesis
    by (cases "handler l this pg") (simp_all add: run_listener_def store_element_def)
qed

lemma ready_dispatch:
  assumes "well_formed pg"
  shows "well_formed (dispatch ls target ev pg) \<and>
         body_available (dispatch ls target ev pg) = body_available pg"
  using assms
  by (induction ls target ev pg rule: dispatch.induct) (simp_all add: ready_run_listener)

lemma ready_step:
  assumes "well_formed pg"
  shows "well_formed (step e pg) \<and> body_available (step e pg) = body_available pg"
proof (cases e)
  case (Dom_Event target ev v)
  have "well_formed (set_value target v pg)"
    "body_available (set_value target v pg) = body_available pg"
    using assms by (simp_all add: set_value_def)
  with ready_dispatch [of "set_value target v pg"] show ?thesis
    unfolding Dom_Event by (simp add: Let_def)
next
  case (Call_showNotification message type_arg)
  with well_formed_showNotification [OF assms] show ?thesis
    by (simp add: ready_report outcome_showNotification)
next
  case (Elapse ms)
  with ready_advance_to [OF assms] show ?thesis by simp
qed

text \<open>
  Every page that comes about from a parsed page by events is well formed and has its
  body.
\<close>

lemma ready_run:
  assumes "well_formed pg"
  shows "well_formed (run evs pg) \<and> body_available (run evs pg) = body_available pg"
  using assms
proof (induction evs arbitrary: pg)
  case Nil
  then show ?case by simp
next
  case (Cons e es)
  from ready_step [OF Cons.prems, of e] Cons.IH [of "step e pg"] show ?case
    by simp
qed

lemma reachable_ready:
  "well_formed (run evs (initial_page els)) \<and> body_available (run evs (initial_page els))"
  using ready_run [of "initial_page els" evs] by simp

section \<open>The life of a notification\<close>

text \<open>
  C5: on a page whose body exists, a call of \<open>showNotification\<close> at time \<open>now pg\<close>
  returns normally and adds exactly one node, the new last child of the body. Whatever
  happens on the page afterwards (DOM events on any element, further notifications, time
  passing), under the virtual clock the node is a child of the body with its slide-in
  animation at every time before \<open>now pg + 3000\<close>, a child with the slide-out animation
  from then until before \<open>now pg + 3300\<close>, and no child of the body from
  \<open>now pg + 3300\<close> on; so it is there 2000 ms after the call, and once 3300 ms have
  passed it is gone. Nothing in the script cancels a timer.
\<close>

theorem notification_lifecycle:
  assumes "well_formed pg" "body_available pg"
  shows "\<exists>pg1. showNotification message type_arg pg = Normal pg1 \<and>
           next_node pg \<notin> set (children pg) \<and>
           children pg1 = children pg @ [next_node pg] \<and>
           length (added_nodes pg pg1) = 1 \<and>
           (\<forall>evs ms.
              (if now (run evs pg1) < now pg + 3000
               then next_node pg \<in> set (children (run evs pg1)) \<and>
                    animation_of (next_node pg) (run evs pg1) = Some (js ''slideIn 0.3s ease'')
               else if now (run evs pg1) < now pg + 3300
               then next_node pg \<in> set (children (run evs pg1)) \<and>
                    animation_of (next_node pg) (run evs pg1) = Some (js ''slideOut 0.3s ease'')
               else next_node pg \<notin> set (children (run evs pg1))) \<and>
              now (run (evs @ [Elapse ms]) pg1) = now (run evs pg1) + ms \<and>
              next_node pg \<notin> set (children (run (evs @ [Elapse 3300]) pg1))) \<and>
           now pg1 = now pg \<and>
           now (run [Elapse 2000] pg1) = now pg + 2000 \<and>
           next_node pg \<in> set (children (run [Elapse 2000] pg1))"
proof -
  define pg1 where "pg1 = outcome (showNotification message type_arg pg)"
  define n where "n = next_node pg"
  have normal: "showNotification message type_arg pg = Normal pg1"
    unfolding pg1_def by (rule showNotification_Normal [OF assms(2)])
  have fresh: "n \<notin> set (children pg)"
    unfolding n_def by (rule well_formed_fresh(1) [OF assms(1)])
  have kids: "children pg1 = children pg @ [n]"
    using fresh assms(2) unfolding pg1_def n_def by (simp add: outcome_showNotification)
  have added: "length (added_nodes pg pg1) = 1"
    unfolding pg1_def by (simp add: added_nodes_showNotification [OF assms])
  have life: "lifecycle n (now pg) (run evs pg1)" for evs
    unfolding pg1_def n_def by (rule lifecycle_run [OF lifecycle_begins [OF assms]])
  have clock: "now (run (evs @ [Elapse ms]) pg1) = now (run evs pg1) + ms" for evs ms
    by (simp add: run_append now_advance_to)
  have later: "n \<notin> set (children (run (evs @ [Elapse 3300]) pg1))" for evs
  proof -
    have "now pg \<le> now (run evs pg1)"
      using life [of evs] by (simp add: lifecycle_def)
    then have "\<not> now (run (evs @ [Elapse 3300]) pg1) < now pg + 3300"
      by (simp add: clock)
    with lifecycle_observed [OF life [of "evs @ [Elapse 3300]"]] show ?thesis
      by (simp split: if_splits)
  qed
  have now1: "now pg1 = now pg"
    unfolding pg1_def by (simp add: outcome_showNotification)
  have at2000: "now (run [Elapse 2000] pg1) = now pg + 2000"
    using clock [of "[]" 2000] now1 by simp
  have shown: "n \<in> set (children (run [Elapse 2000] pg1))"
    using lifecycle_observed [OF life [of "[Elapse 2000]"]] at2000 by simp
  from normal fresh kids added lifecycle_observed [OF life] clock later now1 at2000 shown
  show ?thesis
    unfolding n_def by (intro exI [of _ pg1]) simp
qed

theorem notification_lifecycle_witness:
  "well_formed (initial_page Map.empty) \<and> body_available (initial_page Map.empty) \<and>
   (\<exists>pg1. showNotification (js ''x'') (Some (js ''success'')) (initial_page Map.empty) = Normal pg1 \<and>
      children pg1 = [0] \<and>
      now (run [Elapse 2000] pg1) = 2000 \<and>
      0 \<in> set (children (run [Elapse 2000] pg1)) \<and>
      0 \<notin> set (children (run [Elapse 3300] pg1)))"
proof -
  have h1: "well_formed (initial_page Map.empty)" and h2: "body_available (initial_page Map.empty)"
    by simp_all
  from notification_lifecycle [OF h1 h2, of "js ''x''" "Some (js ''success'')"]
  obtain pg1 where a: "showNotification (js ''x'') (Some (js ''success'')) (initial_page Map.empty) = Normal pg1"
    and b: "children pg1 = children (initial_page Map.empty) @ [next_node (initial_page Map.empty)]"
    and c: "\<And>evs. next_node (initial_page Map.empty) \<notin> set (children (run (evs @ [Elapse 3300]) pg1))"
    and d: "now (run [Elapse 2000] pg1) = now (initial_page Map.empty) + 2000"
    and e: "next_node (initial_page Map.empty) \<in> set (children (run [Elapse 2000] pg1))"
    by blast
  from c [of "[]"] have c': "next_node (initial_page Map.empty) \<notin> set (children (run [Elapse 3300] pg1))"
    by simp
  have "showNotification (js ''x'') (Some (js ''success'')) (initial_page Map.empty) = Normal pg1 \<and>
      children pg1 = [0] \<and>
      now (run [Elapse 2000] pg1) = 2000 \<and>
      0 \<in> set (children (run [Elapse 2000] pg1)) \<and>
      0 \<notin> set (children (run [Elapse 3300] pg1))"
    using a b c' d e by (simp add: initial_page_def children_def)
  then show ?thesis
    using h1 h2 by blast
qed

section \<open>Running the URL rule twice\<close>

text \<open>
  C6: on a page whose body exists, the blur listener run a second time on the field as
  the first run left it returns the very same field, so the border colour is the same
  both times; for a rejected value each of the two runs adds one node of its own to the
  body, which ends up with two new children.
\<close>

theorem video_url_blur_twice:
  assumes "well_formed pg" "body_available pg"
  shows "\<exists>this1 pg1 pg2.
           video_url_blur this pg = Normal (this1, pg1) \<and>
           video_url_blur this1 pg1 = Normal (this1, pg2) \<and>
           input_value this1 = input_value this \<and>
           (if input_value this = [] \<or> regexp_test youtubePattern (input_value this)
            then borderColor this1 = js ''#27ae60'' \<and> pg1 = pg \<and> pg2 = pg
            else borderColor this1 = js ''#e74c3c'' \<and>
                 length (added_nodes pg pg1) = 1 \<and> length (added_nodes pg1 pg2) = 1 \<and>
                 children pg2 = children pg @ [next_node pg, Suc (next_node pg)])"
proof (cases "input_value this = [] \<or> regexp_test youtubePattern (input_value this)")
  case True
  then show ?thesis
    by (intro exI [of _ "this\<lparr>borderColor := js ''#27ae60''\<rparr>"] exI [of _ pg])
       (simp add: video_url_blur_accepts)
next
  case False
  define this1 where "this1 = this\<lparr>borderColor := js ''#e74c3c''\<rparr>"
  define pg1 where "pg1 = outcome (showNotification invalid_url_message (Some (js ''error'')) pg)"
  define pg2 where "pg2 = outcome (showNotification invalid_url_message (Some (js ''error'')) pg1)"
  have ok1: "well_formed pg1" "body_available pg1"
    unfolding pg1_def using assms
    by (simp_all add: well_formed_showNotification outcome_showNotification)
  have v: "input_value this1 = input_value this" "this1\<lparr>borderColor := js ''#e74c3c''\<rparr> = this1"
    by (simp_all add: this1_def)
  have r1: "video_url_blur this pg = Normal (this1, pg1)"
    using False unfolding this1_def pg1_def by (simp add: video_url_blur_eq [OF assms(2)])
  have r2: "video_url_blur this1 pg1 = Normal (this1, pg2)"
    using False v unfolding pg2_def by (simp add: video_url_blur_eq [OF ok1(2)])
  have a1: "length (added_nodes pg pg1) = 1"
    unfolding pg1_def by (simp add: added_nodes_showNotification [OF assms])
  have a2: "length (added_nodes pg1 pg2) = 1"
    unfolding pg2_def by (simp add: added_nodes_showNotification [OF ok1])
  have k1: "children pg1 = children pg @ [next_node pg]" and n1: "next_node pg1 = Suc (next_node pg)"
    using well_formed_fresh(1) [OF assms(1)] assms(2) unfolding pg1_def
    by (simp_all add: outcome_showNotification)
  have k2: "children pg2 = children pg1 @ [next_node pg1]"
    using well_formed_fresh(1) [OF ok1(1)] ok1(2) unfolding pg2_def
    by (simp add: outcome_showNotification)
  from False r1 r2 v a1 a2 k1 k2 n1 show ?thesis
    by (intro exI [of _ this1] exI [of _ pg1] exI [of _ pg2]) (simp add: this1_def)
qed

theorem video_url_blur_twice_witness:
  "well_formed (initial_page Map.empty) \<and> body_available (initial_page Map.empty) \<and>
   (\<exists>this1 pg1 pg2.
      video_url_blur (blank_field\<lparr>input_value := js ''ftp://example.com''\<rparr>)
        (initial_page Map.empty) = Normal (this1, pg1) \<and>
      video_url_blur this1 pg1 = Normal (this1, pg2) \<and>
      borderColor this1 = js ''#e74c3c'' \<and>
      children pg2 = [0, 1])"
proof -
  have h1: "well_formed (initial_page Map.empty)" and h2: "body_available (initial_page Map.empty)"
    by simp_all
  have no: "\<not> (input_value (blank_field\<lparr>input_value := js ''ftp://example.com''\<rparr>) = [] \<or>
      regexp_test youtubePattern
        (input_value (blank_field\<lparr>input_value := js ''ftp://example.com''\<rparr>)))"
    using ftp_rejected by simp
  from video_url_blur_twice [OF h1 h2, of "blank_field\<lparr>input_value := js ''ftp://example.com''\<rparr>"]
  obtain this1 pg1 pg2 where
    r: "video_url_blur (blank_field\<lparr>input_value := js ''ftp://example.com''\<rparr>)
        (initial_page Map.empty) = Normal (this1, pg1)"
      "video_url_blur this1 pg1 = Normal (this1, pg2)"
    and c: "if input_value (blank_field\<lparr>input_value := js ''ftp://example.com''\<rparr>) = [] \<or>
        regexp_test youtubePattern
          (input_value (blank_field\<lparr>input_value := js ''ftp://example.com''\<rparr>))
      then borderColor this1 = js ''#27ae60'' \<and> pg1 = initial_page Map.empty \<and>
           pg2 = initial_page Map.empty
      else borderColor this1 = js ''#e74c3c'' \<and>
           length (added_nodes (initial_page Map.empty) pg1) = 1 \<and>
           length (added_nodes pg1 pg2) = 1 \<and>
           children pg2 = children (initial_page Map.empty) @
             [next_node (initial_page Map.empty), Suc (next_node (initial_page Map.empty))]"
    by blast
  from c no have "borderColor this1 = js ''#e74c3c''"
    and "children pg2 = children (initial_page Map.empty) @
             [next_node (initial_page Map.empty), Suc (next_node (initial_page Map.empty))]"
    by (simp_all only: if_False)
  then have "borderColor this1 = js ''#e74c3c''" "children pg2 = [0, 1]"
    by (simp_all add: initial_page_def children_def)
  with r have "\<exists>this1 pg1 pg2.
      video_url_blur (blank_field\<lparr>input_value := js ''ftp://example.com''\<rparr>)
        (initial_page Map.empty) = Normal (this1, pg1) \<and>
      video_url_blur this1 pg1 = Normal (this1, pg2) \<and>
      borderColor this1 = js ''#e74c3c'' \<and>
      children pg2 = [0, 1]"
    by blast
  then show ?thesis
    using h1 h2 by blast
qed

end
